theory Spec2Isabelle
  imports Main
begin

section \<open>Configuration\<close>

text \<open>The two module-level constants of \<^verbatim>\<open>scansboms.py\<close>.\<close>

definition STATUS_CHECK_INTERVAL :: nat where
  "STATUS_CHECK_INTERVAL = 10"

definition MAX_CONCURRENT_SCANS :: int where
  "MAX_CONCURRENT_SCANS = 10"

section \<open>Python values, exceptions and HTTP replies\<close>

text \<open>
  What \<^verbatim>\<open>response.json()\<close> can return. \<open>JNull\<close> is Python's \<^verbatim>\<open>None\<close>; an object is
  kept as the list of its members in document order. Numbers are kept as integers:
  the program only tests a value for truth and prints it.
\<close>

datatype json =
    JNull
  | JBool bool
  | JNum int
  | JStr string
  | JArr "json list"
  | JObj "(string \<times> json) list"

text \<open>Python truthiness, as used by \<^verbatim>\<open>if x:\<close>, \<^verbatim>\<open>not x\<close> and \<^verbatim>\<open>all\<close>.\<close>

fun truthy :: "json \<Rightarrow> bool" where
  "truthy JNull = False"
| "truthy (JBool b) = b"
| "truthy (JNum n) = (n \<noteq> 0)"
| "truthy (JStr s) = (s \<noteq> [])"
| "truthy (JArr xs) = (xs \<noteq> [])"
| "truthy (JObj kvs) = (kvs \<noteq> [])"

text \<open>
  The exceptions that reach the handlers of the program. \<open>HTTPError\<close> carries the status
  code of the attached response when there is one (\<^verbatim>\<open>e.response\<close>).
\<close>

datatype pyexc =
    HTTPError "nat option"
  | ConnectionError
  | Timeout
  | JSONDecodeError
  | OSError
  | AttributeError

fun is_HTTPError :: "pyexc \<Rightarrow> bool" where
  "is_HTTPError (HTTPError _) = True"
| "is_HTTPError _ = False"

text \<open>
  \<^verbatim>\<open>requests.exceptions.RequestException\<close> is the base class of the HTTP, connection,
  timeout and (from version 2.27 of the library on) JSON decoding errors, and is itself
  a subclass of \<^verbatim>\<open>IOError\<close> (an alias of \<^verbatim>\<open>OSError\<close>).
\<close>

fun is_RequestException :: "pyexc \<Rightarrow> bool" where
  "is_RequestException (HTTPError _) = True"
| "is_RequestException ConnectionError = True"
| "is_RequestException Timeout = True"
| "is_RequestException JSONDecodeError = True"
| "is_RequestException OSError = False"
| "is_RequestException AttributeError = False"

fun is_IOError :: "pyexc \<Rightarrow> bool" where
  "is_IOError OSError = True"
| "is_IOError AttributeError = False"
| "is_IOError e = is_RequestException e"

text \<open>\<^verbatim>\<open>d.get(key, default)\<close>: of a repeated member the decoder keeps the last one.\<close>

definition dict_get :: "(string \<times> json) list \<Rightarrow> string \<Rightarrow> json \<Rightarrow> json" where
  "dict_get kvs k d = (case map_of (rev kvs) k of None \<Rightarrow> d | Some v \<Rightarrow> v)"

text \<open>
  \<^verbatim>\<open>x.get(key, default)\<close> on a decoded value: only a dict has the method, any other
  value raises \<^verbatim>\<open>AttributeError\<close>.
\<close>

fun py_get :: "json \<Rightarrow> string \<Rightarrow> json \<Rightarrow> pyexc + json" where
  "py_get (JObj kvs) k d = Inr (dict_get kvs k d)"
| "py_get _ k d = Inl AttributeError"

text \<open>An HTTP response: its status code and its body decoded (\<open>None\<close>: not JSON).\<close>

record response =
  status_code :: nat
  body :: "json option"

definition raise_for_status :: "response \<Rightarrow> pyexc + unit" where
  "raise_for_status r =
     (if 400 \<le> status_code r \<and> status_code r < 600
      then Inl (HTTPError (Some (status_code r))) else Inr ())"

definition response_json :: "response \<Rightarrow> pyexc + json" where
  "response_json r = (case body r of None \<Rightarrow> Inl JSONDecodeError | Some j \<Rightarrow> Inr j)"

section \<open>Console output and observable events\<close>

datatype msg =
    MsgInvalidFilename
  | MsgSubmitting
  | MsgSubmitted json
  | MsgSubmitStatus nat
  | MsgHTTPError
  | MsgServerResponse nat
  | MsgNetworkError
  | MsgReadError
  | MsgScanFailed json
  | MsgScanCompleted
  | MsgInProgress
  | MsgStatusError
  | MsgWorkerFinished
  | MsgProcessed

text \<open>
  What a worker does that can be seen from outside: a line printed, a call of
  \<^verbatim>\<open>submit_sbom_scan\<close>, a \<^verbatim>\<open>time.sleep\<close>, a call of \<^verbatim>\<open>check_scan_status\<close> with the
  status URL it is given, \<^verbatim>\<open>semaphore.release()\<close>, and the increment of
  \<^verbatim>\<open>processed_counter[0]\<close> under the lock.
\<close>

datatype event =
    EvPrint msg
  | EvSubmit
  | EvSleep nat
  | EvCheck json
  | EvRelease
  | EvIncrement

section \<open>parse\_filename\<close>

text \<open>The path functions are those of \<^verbatim>\<open>posixpath\<close>: the separator is the slash.\<close>

definition basename :: "string \<Rightarrow> string" where
  "basename p = rev (takeWhile (\<lambda>c. c \<noteq> CHR ''/'') (rev p))"

text \<open>\<^verbatim>\<open>s.rfind(c)\<close>: the index of the last occurrence, or -1.\<close>

definition rfind :: "char \<Rightarrow> string \<Rightarrow> int" where
  "rfind c s =
     (if c \<in> set s then int (length s) - 1 - int (length (takeWhile (\<lambda>x. x \<noteq> c) (rev s)))
      else - 1)"

text \<open>
  The first component of \<^verbatim>\<open>os.path.splitext\<close>: the extension starts at the last dot
  after the last separator, unless only dots precede it in the file name.
\<close>

definition splitext_root :: "string \<Rightarrow> string" where
  "splitext_root p =
     (let sepIndex = rfind (CHR ''/'') p; dotIndex = rfind (CHR ''.'') p
      in if sepIndex < dotIndex \<and>
            list_ex (\<lambda>c. c \<noteq> CHR ''.'') (drop (nat (sepIndex + 1)) (take (nat dotIndex) p))
         then take (nat dotIndex) p else p)"

text \<open>\<^verbatim>\<open>s.rsplit(sep, n)\<close> for a one-character separator.\<close>

fun rsplit :: "char \<Rightarrow> nat \<Rightarrow> string \<Rightarrow> string list" where
  "rsplit sep 0 s = [s]"
| "rsplit sep (Suc n) s =
     (if sep \<in> set s
      then rsplit sep n (take (nat (rfind sep s)) s) @ [drop (nat (rfind sep s) + 1) s]
      else [s])"

text \<open>
  \<open>None\<close> stands for the triple \<^verbatim>\<open>(None, None, None)\<close>. The handler of the function is
  not modelled: none of the string operations raises on a \<^verbatim>\<open>str\<close>.
\<close>

definition parse_filename :: "string \<Rightarrow> msg list \<times> (string \<times> string \<times> string) option" where
  "parse_filename filepath =
     (case rsplit (CHR ''_'') 2 (splitext_root (basename filepath)) of
        [app_name, stage, app_id] \<Rightarrow> ([], Some (app_name, stage, app_id))
      | _ \<Rightarrow> ([MsgInvalidFilename], None))"

text \<open>\<^verbatim>\<open>all([app_name, stage, app_id])\<close>.\<close>

fun all_parts :: "(string \<times> string \<times> string) option \<Rightarrow> bool" where
  "all_parts None = False"
| "all_parts (Some (app_name, stage, app_id)) = (app_name \<noteq> [] \<and> stage \<noteq> [] \<and> app_id \<noteq> [])"

section \<open>submit\_sbom\_scan\<close>

text \<open>
  The body of the \<^verbatim>\<open>try\<close>: the file is read, the request is sent, and the reply is
  looked at. The first argument is the outcome of opening and reading the file, the
  second the outcome of \<^verbatim>\<open>requests.post\<close>. The result is the lines printed and either
  the exception raised or the value returned.
\<close>

definition submit_try :: "pyexc + unit \<Rightarrow> pyexc + response \<Rightarrow> msg list \<times> (pyexc + json)" where
  "submit_try rd post =
     (case rd of
        Inl e \<Rightarrow> ([], Inl e)
      | Inr _ \<Rightarrow>
         (case post of
            Inl e \<Rightarrow> ([MsgSubmitting], Inl e)
          | Inr r \<Rightarrow>
             (case raise_for_status r of
                Inl e \<Rightarrow> ([MsgSubmitting], Inl e)
              | Inr _ \<Rightarrow>
                 if status_code r = 202 then
                   (case response_json r of
                      Inl e \<Rightarrow> ([MsgSubmitting], Inl e)
                    | Inr j \<Rightarrow>
                       (case py_get j ''statusUrl'' JNull of
                          Inl e \<Rightarrow> ([MsgSubmitting], Inl e)
                        | Inr status_url \<Rightarrow>
                            ([MsgSubmitting, MsgSubmitted status_url], Inr status_url)))
                 else ([MsgSubmitting, MsgSubmitStatus (status_code r)], Inr JNull))))"

text \<open>The three handlers, in the order of the source; any other exception propagates.\<close>

definition submit_sbom_scan :: "pyexc + unit \<Rightarrow> pyexc + response \<Rightarrow> msg list \<times> (pyexc + json)" where
  "submit_sbom_scan rd post =
     (case submit_try rd post of
        (ms, Inr v) \<Rightarrow> (ms, Inr v)
      | (ms, Inl e) \<Rightarrow>
          if is_HTTPError e then
            (ms @ [MsgHTTPError] @
               (case e of HTTPError (Some c) \<Rightarrow> [MsgServerResponse c] | _ \<Rightarrow> []), Inr JNull)
          else if is_RequestException e then (ms @ [MsgNetworkError], Inr JNull)
          else if is_IOError e then (ms @ [MsgReadError], Inr JNull)
          else (ms, Inl e))"

section \<open>check\_scan\_status\<close>

definition check_try :: "pyexc + response \<Rightarrow> msg list \<times> (pyexc + bool)" where
  "check_try reply =
     (case reply of
        Inl e \<Rightarrow> ([], Inl e)
      | Inr r \<Rightarrow>
         (case raise_for_status r of
            Inl e \<Rightarrow> ([], Inl e)
          | Inr _ \<Rightarrow>
             (case response_json r of
                Inl e \<Rightarrow> ([], Inl e)
              | Inr status_data \<Rightarrow>
                 (case py_get status_data ''isError'' (JBool False) of
                    Inl e \<Rightarrow> ([], Inl e)
                  | Inr is_error \<Rightarrow>
                     if truthy is_error then
                       (case py_get status_data ''errorMessage'' (JStr ''Unknown error.'') of
                          Inl e \<Rightarrow> ([], Inl e)
                        | Inr error_message \<Rightarrow> ([MsgScanFailed error_message], Inr True))
                     else
                       (case py_get status_data ''reportHtmlUrl'' JNull of
                          Inl e \<Rightarrow> ([], Inl e)
                        | Inr report \<Rightarrow>
                            if truthy report then ([MsgScanCompleted], Inr True)
                            else ([MsgInProgress], Inr False))))))"

definition check_scan_status :: "pyexc + response \<Rightarrow> msg list \<times> (pyexc + bool)" where
  "check_scan_status reply =
     (case check_try reply of
        (ms, Inr b) \<Rightarrow> (ms, Inr b)
      | (ms, Inl e) \<Rightarrow>
          if is_RequestException e then (ms @ [MsgStatusError], Inr False)
          else (ms, Inl e))"

section \<open>scan\_worker\<close>

text \<open>
  What the outside world answers to one worker: the outcome of reading its file, the
  reply to its submission, and the reply to its \<open>i\<close>-th status request.
\<close>

record worker_env =
  read_file :: "pyexc + unit"
  post_reply :: "pyexc + response"
  get_reply :: "nat \<Rightarrow> pyexc + response"

text \<open>One turn of the polling loop: the sleep, the check and what the check prints.\<close>

definition poll_events :: "json \<Rightarrow> pyexc + response \<Rightarrow> event list" where
  "poll_events status_url reply =
     [EvSleep STATUS_CHECK_INTERVAL, EvCheck status_url]
       @ map EvPrint (fst (check_scan_status reply))"

text \<open>
  The loop \<^verbatim>\<open>while True\<close>: \<open>i\<close> counts the checks made so far and \<open>tr\<close> is what has
  happened so far. The result is \<open>None\<close> when the loop never ends; otherwise the events,
  the number of checks made, and the exception that ended the loop, if one did.
\<close>

partial_function (option) poll ::
  "json \<Rightarrow> (nat \<Rightarrow> pyexc + response) \<Rightarrow> nat \<Rightarrow> event list
     \<Rightarrow> (event list \<times> nat \<times> pyexc option) option" where
  "poll status_url replies i tr =
     (case snd (check_scan_status (replies i)) of
        Inl e \<Rightarrow> Some (tr @ poll_events status_url (replies i), Suc i, Some e)
      | Inr complete \<Rightarrow>
          if complete then Some (tr @ poll_events status_url (replies i), Suc i, None)
          else poll status_url replies (Suc i) (tr @ poll_events status_url (replies i)))"

text \<open>How the loop was left: by an exception, or by \<^verbatim>\<open>break\<close>.\<close>

fun exit_exc :: "pyexc + bool \<Rightarrow> pyexc option" where
  "exit_exc (Inl e) = Some e"
| "exit_exc (Inr b) = None"

text \<open>The \<^verbatim>\<open>finally\<close> block.\<close>

definition finally_block :: "event list" where
  "finally_block = [EvRelease, EvIncrement, EvPrint MsgWorkerFinished, EvPrint MsgProcessed]"

text \<open>
  The worker of one file. The result is \<open>None\<close> when the worker never returns, otherwise
  its events in order and the exception that leaves it, if any.
\<close>

definition scan_worker :: "worker_env \<Rightarrow> string \<Rightarrow> (event list \<times> pyexc option) option" where
  "scan_worker env filepath =
     (case parse_filename filepath of
        (pms, parsed) \<Rightarrow>
          if \<not> all_parts parsed then
            Some (map EvPrint pms @ [EvIncrement] @ finally_block, None)
          else
            (case submit_sbom_scan (read_file env) (post_reply env) of
               (sms, Inl e) \<Rightarrow>
                 Some (map EvPrint pms @ [EvSubmit] @ map EvPrint sms @ finally_block, Some e)
             | (sms, Inr status_url) \<Rightarrow>
                 if \<not> truthy status_url then
                   Some (map EvPrint pms @ [EvSubmit] @ map EvPrint sms
                           @ [EvIncrement] @ finally_block, None)
                 else
                   (case poll status_url (get_reply env) 0
                           (map EvPrint pms @ [EvSubmit] @ map EvPrint sms) of
                      None \<Rightarrow> None
                    | Some (tr, n, exc) \<Rightarrow> Some (tr @ finally_block, exc))))"

declare poll.simps [code]

section \<open>main: the orchestrator, the semaphore and the worker threads\<close>

text \<open>
  A started thread is the list of the events it still has to perform, taken from
  \<open>scan_worker\<close>; a thread whose polling loop never ends is \<open>Forever\<close>: what it does
  from then on (sleeping, asking for the status, printing) touches neither the
  semaphore nor the counter.
\<close>

datatype thread = Todo "event list" | Forever

fun spawn :: "(event list \<times> pyexc option) option \<Rightarrow> thread" where
  "spawn None = Forever"
| "spawn (Some (tr, exc)) = Todo tr"

text \<open>
  The state shared by \<^verbatim>\<open>main\<close> and its threads: \<^verbatim>\<open>semaphore._value\<close>,
  \<^verbatim>\<open>processed_counter[0]\<close>, the files the loop of \<^verbatim>\<open>main\<close> has not reached yet, the
  file for which \<^verbatim>\<open>main\<close> has acquired the semaphore and not yet started the thread,
  and the threads started so far.
\<close>

record sys =
  sem_value :: int
  processed_counter :: int
  pending :: "string list"
  acquired :: "string option"
  threads :: "thread list"

definition init_sys :: "string list \<Rightarrow> sys" where
  "init_sys sbom_files =
     \<lparr>sem_value = MAX_CONCURRENT_SCANS, processed_counter = 0, pending = sbom_files,
      acquired = None, threads = []\<rparr>"

fun exec_event :: "event \<Rightarrow> sys \<Rightarrow> sys" where
  "exec_event EvRelease s = s\<lparr>sem_value := sem_value s + 1\<rparr>"
| "exec_event EvIncrement s = s\<lparr>processed_counter := processed_counter s + 1\<rparr>"
| "exec_event (EvPrint m) s = s"
| "exec_event EvSubmit s = s"
| "exec_event (EvSleep n) s = s"
| "exec_event (EvCheck u) s = s"

text \<open>
  One step of the loop of \<^verbatim>\<open>main\<close>: \<^verbatim>\<open>semaphore.acquire()\<close> for the next file, which
  is not possible (\<open>None\<close>: the call blocks) while the value is 0, or the start of the
  thread for the file just acquired.
\<close>

definition main_step :: "(string \<Rightarrow> worker_env) \<Rightarrow> sys \<Rightarrow> sys option" where
  "main_step envs s =
     (case acquired s of
        Some f \<Rightarrow>
          Some (s\<lparr>acquired := None, threads := threads s @ [spawn (scan_worker (envs f) f)]\<rparr>)
      | None \<Rightarrow>
         (case pending s of
            [] \<Rightarrow> None
          | f # fs \<Rightarrow>
              if 0 < sem_value s
              then Some (s\<lparr>sem_value := sem_value s - 1, pending := fs, acquired := Some f\<rparr>)
              else None))"

text \<open>One step of thread \<open>i\<close>: its next event.\<close>

definition worker_step :: "nat \<Rightarrow> sys \<Rightarrow> sys option" where
  "worker_step i s =
     (if i < length (threads s) then
        (case threads s ! i of
           Todo (e # es) \<Rightarrow> Some (exec_event e (s\<lparr>threads := (threads s)[i := Todo es]\<rparr>))
         | Todo [] \<Rightarrow> None
         | Forever \<Rightarrow> None)
      else None)"

datatype actor = Orchestrator | Worker nat

fun sys_step :: "(string \<Rightarrow> worker_env) \<Rightarrow> actor \<Rightarrow> sys \<Rightarrow> sys option" where
  "sys_step envs Orchestrator s = main_step envs s"
| "sys_step envs (Worker i) s = worker_step i s"

text \<open>
  A run is a schedule: who moves next, step by step. It is \<open>None\<close> when the schedule asks
  for a step that is not possible.
\<close>

fun run :: "(string \<Rightarrow> worker_env) \<Rightarrow> actor list \<Rightarrow> sys \<Rightarrow> sys option" where
  "run envs [] s = Some s"
| "run envs (a # as) s =
     (case sys_step envs a s of None \<Rightarrow> None | Some s' \<Rightarrow> run envs as s')"

text \<open>A thread holds its slot until it has performed its \<^verbatim>\<open>semaphore.release()\<close>.\<close>

fun holds_slot :: "thread \<Rightarrow> bool" where
  "holds_slot Forever = True"
| "holds_slot (Todo es) = (EvRelease \<in> set es)"

definition slots_held :: "sys \<Rightarrow> nat" where
  "slots_held s =
     length (filter holds_slot (threads s)) + (case acquired s of None \<Rightarrow> 0 | Some f \<Rightarrow> 1)"

text \<open>\<^verbatim>\<open>main\<close> is past its loop and every thread has ended: the joins return.\<close>

definition all_joined :: "sys \<Rightarrow> bool" where
  "all_joined s =
     (pending s = [] \<and> acquired s = None \<and> list_all (\<lambda>t. t = Todo []) (threads s))"

section \<open>The increment under the lock\<close>

text \<open>
  The block \<^verbatim>\<open>with lock: processed_counter[0] += 1; current_count = processed_counter[0]\<close>
  step by step: the lock is taken, the cell is read, the sum is written back, the cell
  is read again for \<^verbatim>\<open>current_count\<close>, the lock is given back. In the runs of
  \<^verbatim>\<open>main\<close> above this block is the single event \<open>EvIncrement\<close>; here it is taken
  apart, to see that the lock makes it behave as one step.
\<close>

datatype task =
    Waiting
  | Locked
  | Loaded int
  | Stored
  | Snapped int
  | Finished int

record counter_state =
  cell :: int
  lock_held :: bool
  tasks :: "task list"

definition init_counter :: "nat \<Rightarrow> counter_state" where
  "init_counter n = \<lparr>cell = 0, lock_held = False, tasks = replicate n Waiting\<rparr>"

definition task_step :: "nat \<Rightarrow> counter_state \<Rightarrow> counter_state option" where
  "task_step i s =
     (if i < length (tasks s) then
        (case tasks s ! i of
           Waiting \<Rightarrow>
             if lock_held s then None
             else Some (s\<lparr>lock_held := True, tasks := (tasks s)[i := Locked]\<rparr>)
         | Locked \<Rightarrow> Some (s\<lparr>tasks := (tasks s)[i := Loaded (cell s)]\<rparr>)
         | Loaded v \<Rightarrow> Some (s\<lparr>cell := v + 1, tasks := (tasks s)[i := Stored]\<rparr>)
         | Stored \<Rightarrow> Some (s\<lparr>tasks := (tasks s)[i := Snapped (cell s)]\<rparr>)
         | Snapped v \<Rightarrow> Some (s\<lparr>lock_held := False, tasks := (tasks s)[i := Finished v]\<rparr>)
         | Finished v \<Rightarrow> None)
      else None)"

fun run_tasks :: "nat list \<Rightarrow> counter_state \<Rightarrow> counter_state option" where
  "run_tasks [] s = Some s"
| "run_tasks (i # is) s =
     (case task_step i s of None \<Rightarrow> None | Some s' \<Rightarrow> run_tasks is s')"

fun is_finished :: "task \<Rightarrow> bool" where
  "is_finished (Finished v) = True"
| "is_finished _ = False"

text \<open>The value of \<^verbatim>\<open>current_count\<close> a task has read, once it has read it.\<close>

fun snapshot :: "task \<Rightarrow> int option" where
  "snapshot (Snapped v) = Some v"
| "snapshot (Finished v) = Some v"
| "snapshot _ = None"

text \<open>Predicates on events and replies used in the statements below.\<close>

fun is_check :: "event \<Rightarrow> bool" where
  "is_check (EvCheck u) = True"
| "is_check _ = False"

fun is_sleep :: "event \<Rightarrow> bool" where
  "is_sleep (EvSleep n) = True"
| "is_sleep _ = False"



text \<open>How many times a thread will still call \<^verbatim>\<open>semaphore.release()\<close>.\<close>

fun releases_left :: "thread \<Rightarrow> nat" where
  "releases_left Forever = 0"
| "releases_left (Todo es) = length (filter (\<lambda>e. e = EvRelease) es)"

text \<open>
  The invariant of a run: the free slots and the slots held add up to
  \<open>MAX_CONCURRENT_SCANS\<close>, the value of the semaphore is not negative, and no thread
  will release more than once.
\<close>

definition gate_inv :: "sys \<Rightarrow> bool" where
  "gate_inv s \<longleftrightarrow>
     sem_value s + int (slots_held s) = MAX_CONCURRENT_SCANS \<and> 0 \<le> sem_value s \<and>
     list_all (\<lambda>t. releases_left t \<le> 1) (threads s)"

text \<open>
  A task is in the critical section while it holds the lock; it is counted once it has
  written the incremented value back.
\<close>

fun in_cs :: "task \<Rightarrow> bool" where
  "in_cs Waiting = False"
| "in_cs Locked = True"
| "in_cs (Loaded v) = True"
| "in_cs Stored = True"
| "in_cs (Snapped v) = True"
| "in_cs (Finished v) = False"

fun counted :: "task \<Rightarrow> bool" where
  "counted Stored = True"
| "counted (Snapped v) = True"
| "counted (Finished v) = True"
| "counted _ = False"

text \<open>The invariant of the tasks that increment the counter under the lock.\<close>

definition lock_inv :: "counter_state \<Rightarrow> bool" where
  "lock_inv s \<longleftrightarrow>
     (lock_held s \<longleftrightarrow> (\<exists>i<length (tasks s). in_cs (tasks s ! i))) \<and>
     (\<forall>i<length (tasks s). \<forall>j<length (tasks s).
        in_cs (tasks s ! i) \<and> in_cs (tasks s ! j) \<longrightarrow> i = j)"

definition cell_inv :: "counter_state \<Rightarrow> bool" where
  "cell_inv s \<longleftrightarrow>
     cell s = int (length (filter counted (tasks s))) \<and>
     (\<forall>i<length (tasks s). \<forall>v. tasks s ! i = Loaded v \<longrightarrow> v = cell s)"

definition snapshot_inv :: "counter_state \<Rightarrow> bool" where
  "snapshot_inv s \<longleftrightarrow>
     (\<forall>i<length (tasks s). \<forall>v. snapshot (tasks s ! i) = Some v \<longrightarrow> 1 \<le> v \<and> v \<le> cell s) \<and>
     (\<forall>i<length (tasks s). \<forall>j<length (tasks s). \<forall>v.
        i \<noteq> j \<and> snapshot (tasks s ! i) = Some v \<longrightarrow> snapshot (tasks s ! j) \<noteq> Some v) \<and>
     (\<forall>i<length (tasks s). tasks s ! i = Stored \<longrightarrow>
        (\<forall>j<length (tasks s). \<forall>v. snapshot (tasks s ! j) = Some v \<longrightarrow> v < cell s))"

definition counter_inv :: "counter_state \<Rightarrow> bool" where
  "counter_inv s \<longleftrightarrow> lock_inv s \<and> cell_inv s \<and> snapshot_inv s"

section \<open>The polling loop\<close>

lemma poll_again:
  "snd (check_scan_status (replies i)) = Inr False \<Longrightarrow>
   poll u replies i tr = poll u replies (Suc i) (tr @ poll_events u (replies i))"
  by (subst poll.simps) simp

lemma poll_stop:
  "snd (check_scan_status (replies i)) \<noteq> Inr False \<Longrightarrow>
   poll u replies i tr =
     Some (tr @ poll_events u (replies i), Suc i, exit_exc (snd (check_scan_status (replies i))))"
  by (subst poll.simps) (auto split: sum.splits)

lemma poll_exits:
  "(\<And>j. j < k \<Longrightarrow> snd (check_scan_status (replies (i + j))) = Inr False) \<Longrightarrow>
   snd (check_scan_status (replies (i + k))) \<noteq> Inr False \<Longrightarrow>
   poll u replies i tr =
     Some (tr @ concat (map (\<lambda>j. poll_events u (replies j)) [i ..< Suc (i + k)]),
           Suc (i + k), exit_exc (snd (check_scan_status (replies (i + k)))))"
proof (induction k arbitrary: i tr)
  case 0
  then show ?case by (simp add: poll_stop [of replies i])
next
  case (Suc k)
  have first: "snd (check_scan_status (replies i)) = Inr False"
    using Suc.prems(1) [of 0] by simp
  have rest: "\<And>j. j < k \<Longrightarrow> snd (check_scan_status (replies (Suc i + j))) = Inr False"
    using Suc.prems(1) by (metis Suc_less_eq add_Suc_shift)
  have last: "snd (check_scan_status (replies (Suc i + k))) \<noteq> Inr False"
    using Suc.prems(2) by simp
  have range: "[i ..< Suc (Suc (i + k))] = i # [Suc i ..< Suc (Suc (i + k))]"
    by (rule upt_conv_Cons) simp
  show ?case
    using Suc.IH [OF rest last, of "tr @ poll_events u (replies i)"]
    by (simp add: poll_again [of replies i, OF first] range del: upt_Suc)
qed

lemma poll_Some_imp:
  assumes "poll u replies i tr = Some y"
  shows "\<exists>k. snd (check_scan_status (replies (i + k))) \<noteq> Inr False"
proof (rule poll.raw_induct
    [where P = "\<lambda>u replies i tr y. \<exists>k. snd (check_scan_status (replies (i + k))) \<noteq> Inr False",
      OF _ assms])
  fix p u replies i tr y
  assume IH: "\<And>u replies i tr y. p u replies i tr = Some y \<Longrightarrow>
                \<exists>k. snd (check_scan_status (replies (i + k))) \<noteq> Inr False"
    and body: "(case snd (check_scan_status (replies i)) of
        Inl e \<Rightarrow> Some (tr @ poll_events u (replies i), Suc i, Some e)
      | Inr complete \<Rightarrow>
          if complete then Some (tr @ poll_events u (replies i), Suc i, None)
          else p u replies (Suc i) (tr @ poll_events u (replies i))) = Some y"
  show "\<exists>k. snd (check_scan_status (replies (i + k))) \<noteq> Inr False"
  proof (cases "snd (check_scan_status (replies i)) = Inr False")
    case True
    with body have "p u replies (Suc i) (tr @ poll_events u (replies i)) = Some y"
      by simp
    from IH [OF this]
    obtain k where "snd (check_scan_status (replies (Suc i + k))) \<noteq> Inr False"
      by blast
    then have "snd (check_scan_status (replies (i + Suc k))) \<noteq> Inr False"
      by simp
    then show ?thesis by blast
  next
    case False
    then have "snd (check_scan_status (replies (i + 0))) \<noteq> Inr False" by simp
    then show ?thesis by blast
  qed
qed

lemma poll_forever:
  assumes "\<And>j. snd (check_scan_status (replies (i + j))) = Inr False"
  shows "poll u replies i tr = None"
proof (cases "poll u replies i tr")
  case None
  then show ?thesis .
next
  case (Some y)
  from poll_Some_imp [OF this] assms show ?thesis by blast
qed


lemma poll_first_exit:
  assumes "\<exists>k. snd (check_scan_status (replies (i + k))) \<noteq> Inr False"
  shows "\<exists>k. (\<forall>j<k. snd (check_scan_status (replies (i + j))) = Inr False) \<and>
             snd (check_scan_status (replies (i + k))) \<noteq> Inr False \<and>
             poll u replies i tr =
               Some (tr @ concat (map (\<lambda>j. poll_events u (replies j)) [i ..< Suc (i + k)]),
                     Suc (i + k), exit_exc (snd (check_scan_status (replies (i + k)))))"
proof -
  from assms obtain k where
    k: "snd (check_scan_status (replies (i + k))) \<noteq> Inr False"
    and before: "\<forall>j<k. \<not> snd (check_scan_status (replies (i + j))) \<noteq> Inr False"
    using exists_least_iff [of "\<lambda>k. snd (check_scan_status (replies (i + k))) \<noteq> Inr False"]
    by blast
  from before have "\<And>j. j < k \<Longrightarrow> snd (check_scan_status (replies (i + j))) = Inr False"
    by simp
  from poll_exits [of k replies i u tr, OF this k] k before show ?thesis
    by (intro exI [of _ k]) simp
qed

lemma poll_Some_eq:
  assumes "poll u replies i tr = Some y"
  shows "\<exists>k. (\<forall>j<k. snd (check_scan_status (replies (i + j))) = Inr False) \<and>
             snd (check_scan_status (replies (i + k))) \<noteq> Inr False \<and>
             y = (tr @ concat (map (\<lambda>j. poll_events u (replies j)) [i ..< Suc (i + k)]),
                  Suc (i + k), exit_exc (snd (check_scan_status (replies (i + k)))))"
  using poll_first_exit [OF poll_Some_imp [OF assms], of u tr] assms by auto

lemma poll_None_iff:
  "poll u replies i tr = None \<longleftrightarrow> (\<forall>k. snd (check_scan_status (replies (i + k))) = Inr False)"
proof
  assume none: "poll u replies i tr = None"
  show "\<forall>k. snd (check_scan_status (replies (i + k))) = Inr False"
  proof (rule ccontr)
    assume "\<not> (\<forall>k. snd (check_scan_status (replies (i + k))) = Inr False)"
    then have "\<exists>k. snd (check_scan_status (replies (i + k))) \<noteq> Inr False" by simp
    from poll_first_exit [OF this, of u tr] none show False by auto
  qed
next
  assume "\<forall>k. snd (check_scan_status (replies (i + k))) = Inr False"
  then show "poll u replies i tr = None" by (intro poll_forever) simp
qed

lemma set_poll_events:
  "set (poll_events u reply) \<subseteq> {EvSleep STATUS_CHECK_INTERVAL, EvCheck u} \<union> range EvPrint"
  by (auto simp: poll_events_def)

lemma poll_events_no_shared:
  "EvRelease \<notin> set (poll_events u reply)" "EvIncrement \<notin> set (poll_events u reply)"
  using set_poll_events [of u reply] by auto

lemma poll_appends:
  assumes "poll u replies i tr = Some (tr', n, x)"
  shows "\<exists>evs. tr' = tr @ evs \<and> EvRelease \<notin> set evs \<and> EvIncrement \<notin> set evs"
proof -
  from poll_Some_eq [OF assms] obtain k where
    "tr' = tr @ concat (map (\<lambda>j. poll_events u (replies j)) [i ..< Suc (i + k)])"
    by auto
  then show ?thesis
    by (intro exI [of _ "concat (map (\<lambda>j. poll_events u (replies j)) [i ..< Suc (i + k)])"])
       (auto simp: poll_events_no_shared)
qed

text \<open>Every worker that ends has run the \<^verbatim>\<open>finally\<close> block last, and released nowhere else.\<close>

lemma scan_worker_shape:
  assumes "scan_worker env filepath = Some (tr, exc)"
  shows "\<exists>pre. tr = pre @ finally_block \<and> EvRelease \<notin> set pre"
proof (cases "all_parts (snd (parse_filename filepath))")
  case False
  with assms show ?thesis
    by (auto simp: scan_worker_def split: prod.splits)
next
  case parsed: True
  obtain sms res where sub: "submit_sbom_scan (read_file env) (post_reply env) = (sms, res)"
    by (cases "submit_sbom_scan (read_file env) (post_reply env)")
  show ?thesis
  proof (cases res)
    case (Inl e)
    with assms parsed sub show ?thesis
      by (auto simp: scan_worker_def split: prod.splits)
  next
    case (Inr status_url)
    show ?thesis
    proof (cases "truthy status_url")
      case False
      with assms parsed sub Inr show ?thesis
        by (auto simp: scan_worker_def split: prod.splits)
    next
      case True
      with assms parsed sub Inr obtain tr' n where
        p: "poll status_url (get_reply env) 0
              (map EvPrint (fst (parse_filename filepath)) @ [EvSubmit] @ map EvPrint sms)
            = Some (tr', n, exc)" and tr: "tr = tr' @ finally_block"
        by (auto simp: scan_worker_def split: prod.splits option.splits)
      from poll_appends [OF p] tr show ?thesis by auto
    qed
  qed
qed

section \<open>The worker of one file\<close>

lemma filter_print [simp]:
  "filter is_check (map EvPrint ms) = []" "filter is_sleep (map EvPrint ms) = []"
  by (induction ms) auto

lemma finally_block_quiet [simp]:
  "filter is_check finally_block = []" "filter is_sleep finally_block = []"
  by (simp_all add: finally_block_def)

lemma not_check_iff: "(\<forall>u. EvCheck u \<notin> set tr) \<longleftrightarrow> filter is_check tr = []"
proof -
  have "\<And>e. is_check e \<longleftrightarrow> (\<exists>u. e = EvCheck u)" by (case_tac e) auto
  then show ?thesis by (auto simp: filter_empty_conv)
qed

lemma not_sleep_iff: "(\<forall>n. EvSleep n \<notin> set tr) \<longleftrightarrow> filter is_sleep tr = []"
proof -
  have "\<And>e. is_sleep e \<longleftrightarrow> (\<exists>n. e = EvSleep n)" by (case_tac e) auto
  then show ?thesis by (auto simp: filter_empty_conv)
qed

lemma map_upt_const: "(\<forall>j<k. f j = x) \<Longrightarrow> map f [0 ..< k] = replicate k x"
  by (induction k) (auto simp: replicate_append_same)

lemma length_filter_concat_replicate:
  "length (filter P (concat (replicate k xs))) = k * length (filter P xs)"
  by (induction k) auto

lemma scan_worker_not_polling:
  assumes "all_parts (snd (parse_filename filepath))"
    and "submit_sbom_scan (read_file env) (post_reply env) = (sms, Inr status_url)"
    and "\<not> truthy status_url"
  shows "scan_worker env filepath =
           Some (map EvPrint (fst (parse_filename filepath)) @ [EvSubmit] @ map EvPrint sms
                   @ [EvIncrement] @ finally_block, None)"
  using assms by (cases "parse_filename filepath") (simp add: scan_worker_def)

lemma scan_worker_polling:
  assumes "all_parts (snd (parse_filename filepath))"
    and "submit_sbom_scan (read_file env) (post_reply env) = (sms, Inr status_url)"
    and "truthy status_url"
  shows "scan_worker env filepath =
           (case poll status_url (get_reply env) 0
                   (map EvPrint (fst (parse_filename filepath)) @ [EvSubmit] @ map EvPrint sms) of
              None \<Rightarrow> None
            | Some (tr, n, exc) \<Rightarrow> Some (tr @ finally_block, exc))"
  using assms by (cases "parse_filename filepath") (simp add: scan_worker_def)

text \<open>
  C6: when the file name parses and \<^verbatim>\<open>submit_sbom_scan\<close> returns \<^verbatim>\<open>None\<close>, the
  worker returns at once: it counts the file, runs its \<^verbatim>\<open>finally\<close> block and ends
  without an exception; \<^verbatim>\<open>check_scan_status\<close> is never called and \<^verbatim>\<open>time.sleep\<close> is
  never called.
\<close>

theorem rejected_submission_is_not_polled:
  assumes "all_parts (snd (parse_filename filepath))"
    and "submit_sbom_scan (read_file env) (post_reply env) = (sms, Inr JNull)"
  shows "\<exists>tr. scan_worker env filepath = Some (tr, None) \<and>
              tr = map EvPrint (fst (parse_filename filepath)) @ [EvSubmit] @ map EvPrint sms
                     @ [EvIncrement] @ finally_block \<and>
              (\<forall>u. EvCheck u \<notin> set tr) \<and> (\<forall>n. EvSleep n \<notin> set tr)"
  using scan_worker_not_polling [OF assms]
  by (simp add: not_check_iff not_sleep_iff)

text \<open>
  C7: when the submission is accepted and the first \<open>k\<close> status checks report a scan
  in progress and the next one a report, the worker makes exactly \<open>k + 1\<close> checks, each
  right after a sleep of \<open>STATUS_CHECK_INTERVAL\<close>, prints that the scan completed
  successfully, and ends without an exception.
\<close>

theorem in_progress_then_success:
  assumes parsed: "all_parts (snd (parse_filename filepath))"
    and accepted: "submit_sbom_scan (read_file env) (post_reply env) = (sms, Inr status_url)"
    and token: "truthy status_url"
    and progress: "\<forall>j<k. check_scan_status (get_reply env j) = ([MsgInProgress], Inr False)"
    and success: "check_scan_status (get_reply env k) = ([MsgScanCompleted], Inr True)"
  shows "\<exists>tr. scan_worker env filepath = Some (tr, None) \<and>
              tr = map EvPrint (fst (parse_filename filepath)) @ [EvSubmit] @ map EvPrint sms
                     @ concat (replicate k [EvSleep STATUS_CHECK_INTERVAL, EvCheck status_url,
                                            EvPrint MsgInProgress])
                     @ [EvSleep STATUS_CHECK_INTERVAL, EvCheck status_url,
                        EvPrint MsgScanCompleted]
                     @ finally_block \<and>
              length (filter is_check tr) = Suc k \<and>
              length (filter is_sleep tr) = Suc k"
proof -
  let ?start = "map EvPrint (fst (parse_filename filepath)) @ [EvSubmit] @ map EvPrint sms"
  let ?turn = "[EvSleep STATUS_CHECK_INTERVAL, EvCheck status_url, EvPrint MsgInProgress]"
  let ?last = "[EvSleep STATUS_CHECK_INTERVAL, EvCheck status_url, EvPrint MsgScanCompleted]"
  have again: "\<And>j. j < k \<Longrightarrow> snd (check_scan_status (get_reply env (0 + j))) = Inr False"
    using progress by simp
  have stop: "snd (check_scan_status (get_reply env (0 + k))) \<noteq> Inr False"
    using success by simp
  have turns: "map (\<lambda>j. poll_events status_url (get_reply env j)) [0 ..< k] = replicate k ?turn"
    using progress by (intro map_upt_const) (simp add: poll_events_def)
  have events: "concat (map (\<lambda>j. poll_events status_url (get_reply env j)) [0 ..< Suc (0 + k)])
                  = concat (replicate k ?turn) @ ?last"
    using turns success by (simp add: poll_events_def)
  have "poll status_url (get_reply env) 0 ?start =
          Some (?start @ concat (replicate k ?turn) @ ?last, Suc k, None)"
    using poll_exits [of k "get_reply env" 0 status_url ?start, OF again stop] success
    unfolding events by simp
  then have "scan_worker env filepath =
          Some (?start @ concat (replicate k ?turn) @ ?last @ finally_block, None)"
    by (simp add: scan_worker_polling [OF parsed accepted token])
  then show ?thesis
    by (simp add: length_filter_concat_replicate)
qed

text \<open>
  C10: a reply 202 whose JSON object has no member \<^verbatim>\<open>statusUrl\<close> makes
  \<^verbatim>\<open>submit_sbom_scan\<close> return \<^verbatim>\<open>None\<close> (after printing the success line), and the
  worker then takes the submission-failure path: it never sleeps and never checks.
\<close>

theorem accepted_without_status_url:
  assumes "read_file env = Inr ()" and "post_reply env = Inr r"
    and "status_code r = 202" and "body r = Some (JObj members)"
    and "''statusUrl'' \<notin> fst ` set members"
  shows "submit_sbom_scan (read_file env) (post_reply env)
           = ([MsgSubmitting, MsgSubmitted JNull], Inr JNull) \<and>
         (all_parts (snd (parse_filename filepath)) \<longrightarrow>
            (\<exists>tr. scan_worker env filepath = Some (tr, None) \<and>
                  (\<forall>u. EvCheck u \<notin> set tr) \<and> (\<forall>n. EvSleep n \<notin> set tr)))"
proof -
  have "map_of (rev members) ''statusUrl'' = None"
    using assms(5) by (simp add: map_of_eq_None_iff)
  then have "dict_get members ''statusUrl'' JNull = JNull"
    by (simp add: dict_get_def)
  then have sub: "submit_sbom_scan (read_file env) (post_reply env)
                    = ([MsgSubmitting, MsgSubmitted JNull], Inr JNull)"
    using assms(1-4)
    by (simp add: submit_sbom_scan_def submit_try_def raise_for_status_def response_json_def)
  show ?thesis
    using sub scan_worker_not_polling [of filepath env _ JNull, OF _ sub]
    by (simp add: not_check_iff not_sleep_iff)
qed


theorem rejected_submission_is_not_polled_witness:
  "all_parts (snd (parse_filename ''sboms/shop_build_a1b2.xml'')) \<and>
   submit_sbom_scan (Inr ()) (Inl ConnectionError) = ([MsgSubmitting, MsgNetworkError], Inr JNull) \<and>
   (\<exists>tr. scan_worker \<lparr>read_file = Inr (), post_reply = Inl ConnectionError,
                       get_reply = (\<lambda>i. Inl Timeout)\<rparr> ''sboms/shop_build_a1b2.xml''
            = Some (tr, None) \<and>
         tr = [EvSubmit, EvPrint MsgSubmitting, EvPrint MsgNetworkError, EvIncrement,
               EvRelease, EvIncrement, EvPrint MsgWorkerFinished, EvPrint MsgProcessed] \<and>
         (\<forall>u. EvCheck u \<notin> set tr) \<and> (\<forall>n. EvSleep n \<notin> set tr))"
proof -
  let ?env = "\<lparr>read_file = Inr (), post_reply = Inl ConnectionError,
               get_reply = (\<lambda>i. Inl Timeout)\<rparr>"
  have parsed: "all_parts (snd (parse_filename ''sboms/shop_build_a1b2.xml''))"
    by code_simp
  have names: "fst (parse_filename ''sboms/shop_build_a1b2.xml'') = []"
    by code_simp
  have rejected: "submit_sbom_scan (read_file ?env) (post_reply ?env)
                    = ([MsgSubmitting, MsgNetworkError], Inr JNull)"
    by (simp add: submit_sbom_scan_def submit_try_def)
  show ?thesis
    using rejected_submission_is_not_polled [OF parsed rejected] parsed rejected
    by (simp add: names finally_block_def)
qed

theorem in_progress_then_success_witness:
  "all_parts (snd (parse_filename ''sboms/shop_build_a1b2.xml'')) \<and>
   truthy (JStr ''api/v2/scan/status/7'') \<and>
   (\<exists>tr. scan_worker
            \<lparr>read_file = Inr (),
             post_reply = Inr \<lparr>status_code = 202,
                body = Some (JObj [(''statusUrl'', JStr ''api/v2/scan/status/7'')])\<rparr>,
             get_reply = (\<lambda>i. if i < 2 then Inr \<lparr>status_code = 200, body = Some (JObj [])\<rparr>
                else Inr \<lparr>status_code = 200,
                  body = Some (JObj [(''reportHtmlUrl'', JStr ''ui/report/7'')])\<rparr>)\<rparr>
            ''sboms/shop_build_a1b2.xml'' = Some (tr, None) \<and>
         tr = [EvSubmit, EvPrint MsgSubmitting,
               EvPrint (MsgSubmitted (JStr ''api/v2/scan/status/7''))]
              @ concat (replicate 2 [EvSleep STATUS_CHECK_INTERVAL,
                   EvCheck (JStr ''api/v2/scan/status/7''), EvPrint MsgInProgress])
              @ [EvSleep STATUS_CHECK_INTERVAL, EvCheck (JStr ''api/v2/scan/status/7''),
                 EvPrint MsgScanCompleted]
              @ finally_block \<and>
         length (filter is_check tr) = 3 \<and> length (filter is_sleep tr) = 3)"
proof -
  let ?busy = "Inr \<lparr>status_code = 200, body = Some (JObj [])\<rparr> :: pyexc + response"
  let ?ready = "Inr \<lparr>status_code = 200,
                  body = Some (JObj [(''reportHtmlUrl'', JStr ''ui/report/7'')])\<rparr>
                :: pyexc + response"
  let ?env = "\<lparr>read_file = Inr (),
             post_reply = Inr \<lparr>status_code = 202,
                body = Some (JObj [(''statusUrl'', JStr ''api/v2/scan/status/7'')])\<rparr>,
             get_reply = (\<lambda>i. if i < 2 then ?busy else ?ready)\<rparr>"
  have parsed: "all_parts (snd (parse_filename ''sboms/shop_build_a1b2.xml''))"
    by code_simp
  have names: "fst (parse_filename ''sboms/shop_build_a1b2.xml'') = []"
    by code_simp
  have accepted: "submit_sbom_scan (read_file ?env) (post_reply ?env)
      = ([MsgSubmitting, MsgSubmitted (JStr ''api/v2/scan/status/7'')],
         Inr (JStr ''api/v2/scan/status/7''))"
    by (simp add: submit_sbom_scan_def submit_try_def raise_for_status_def response_json_def
        dict_get_def)
  have token: "truthy (JStr ''api/v2/scan/status/7'')" by simp
  have busy: "check_scan_status ?busy = ([MsgInProgress], Inr False)"
    by (simp add: check_scan_status_def check_try_def raise_for_status_def response_json_def
        dict_get_def)
  have ready: "check_scan_status ?ready = ([MsgScanCompleted], Inr True)"
    by (simp add: check_scan_status_def check_try_def raise_for_status_def response_json_def
        dict_get_def)
  have progress: "\<forall>j<2. check_scan_status (get_reply ?env j) = ([MsgInProgress], Inr False)"
    using busy by simp
  have success: "check_scan_status (get_reply ?env 2) = ([MsgScanCompleted], Inr True)"
    using ready by simp
  show ?thesis
    using in_progress_then_success [OF parsed accepted token progress success] parsed token
    by (simp add: names)
qed

theorem accepted_without_status_url_witness:
  "status_code \<lparr>status_code = 202, body = Some (JObj [(''scanId'', JStr ''7'')])\<rparr> = 202 \<and>
   ''statusUrl'' \<notin> fst ` set [(''scanId'', JStr ''7'')] \<and>
   all_parts (snd (parse_filename ''sboms/shop_build_a1b2.xml'')) \<and>
   submit_sbom_scan (Inr ())
      (Inr \<lparr>status_code = 202, body = Some (JObj [(''scanId'', JStr ''7'')])\<rparr>)
     = ([MsgSubmitting, MsgSubmitted JNull], Inr JNull) \<and>
   (\<exists>tr. scan_worker
            \<lparr>read_file = Inr (),
             post_reply = Inr \<lparr>status_code = 202, body = Some (JObj [(''scanId'', JStr ''7'')])\<rparr>,
             get_reply = (\<lambda>i. Inr \<lparr>status_code = 200, body = Some (JObj [])\<rparr>)\<rparr>
            ''sboms/shop_build_a1b2.xml'' = Some (tr, None) \<and>
         (\<forall>u. EvCheck u \<notin> set tr) \<and> (\<forall>n. EvSleep n \<notin> set tr))"
proof -
  let ?r = "\<lparr>status_code = 202, body = Some (JObj [(''scanId'', JStr ''7'')])\<rparr>"
  let ?env = "\<lparr>read_file = Inr (), post_reply = Inr ?r,
               get_reply = (\<lambda>i. Inr \<lparr>status_code = 200, body = Some (JObj [])\<rparr>)\<rparr>"
  have parsed: "all_parts (snd (parse_filename ''sboms/shop_build_a1b2.xml''))"
    by code_simp
  have h1: "read_file ?env = Inr ()" by simp
  have h2: "post_reply ?env = Inr ?r" by simp
  have h3: "status_code ?r = 202" by simp
  have h4: "body ?r = Some (JObj [(''scanId'', JStr ''7'')])" by simp
  have h5: "''statusUrl'' \<notin> fst ` set [(''scanId'', JStr ''7'')]" by simp
  show ?thesis
    using accepted_without_status_url [OF h1 h2 h3 h4 h5, of "''sboms/shop_build_a1b2.xml''"]
      parsed h3 h5
    by simp
qed

section \<open>Status checks that fail in transit\<close>









section \<open>What submit\_sbom\_scan returns\<close>

text \<open>
  The failures the handlers are written for: the file cannot be read, the request fails
  in transit, the server answers 4xx or 5xx. Each of them ends in \<^verbatim>\<open>None\<close> after a line
  that says what happened.
\<close>

lemma submit_unreadable_file:
  "submit_sbom_scan (Inl OSError) post = ([MsgReadError], Inr JNull)"
  by (simp add: submit_sbom_scan_def submit_try_def)

lemma submit_transport_failure:
  "is_RequestException e \<Longrightarrow> \<not> is_HTTPError e \<Longrightarrow>
   submit_sbom_scan (Inr ()) (Inl e) = ([MsgSubmitting, MsgNetworkError], Inr JNull)"
  by (simp add: submit_sbom_scan_def submit_try_def)

lemma submit_error_status:
  "400 \<le> status_code r \<Longrightarrow> status_code r < 600 \<Longrightarrow>
   submit_sbom_scan (Inr ()) (Inr r)
     = ([MsgSubmitting, MsgHTTPError, MsgServerResponse (status_code r)], Inr JNull)"
  by (simp add: submit_sbom_scan_def submit_try_def raise_for_status_def)

lemma submit_other_status:
  "status_code r < 400 \<or> 600 \<le> status_code r \<Longrightarrow> status_code r \<noteq> 202 \<Longrightarrow>
   submit_sbom_scan (Inr ()) (Inr r)
     = ([MsgSubmitting, MsgSubmitStatus (status_code r)], Inr JNull)"
  by (auto simp: submit_sbom_scan_def submit_try_def raise_for_status_def)

text \<open>A value other than \<^verbatim>\<open>None\<close> comes from a reply 202 only.\<close>

lemma submit_token_only_if_accepted:
  assumes "submit_sbom_scan rd post = (ms, Inr v)" and "v \<noteq> JNull"
  shows "\<exists>r members. rd = Inr () \<and> post = Inr r \<and> status_code r = 202 \<and>
           body r = Some (JObj members) \<and> v = dict_get members ''statusUrl'' JNull"
proof -
  from assms obtain r where r: "rd = Inr ()" "post = Inr r"
    by (cases rd; cases post)
       (auto simp: submit_sbom_scan_def submit_try_def split: if_splits)
  from assms r have ok: "raise_for_status r = Inr ()" and code: "status_code r = 202"
    by (auto simp: submit_sbom_scan_def submit_try_def split: if_splits sum.splits)
  from assms r ok code obtain j where j: "body r = Some j"
    by (cases "body r")
       (auto simp: submit_sbom_scan_def submit_try_def response_json_def split: if_splits)
  from assms r ok code j obtain members where "j = JObj members"
    by (cases j)
       (auto simp: submit_sbom_scan_def submit_try_def response_json_def split: if_splits)
  with assms r ok code j show ?thesis
    by (auto simp: submit_sbom_scan_def submit_try_def response_json_def)
qed

text \<open>
  C4: \<^verbatim>\<open>submit_sbom_scan\<close> lets an exception through. The server answers 202 with a
  body that is JSON but not an object (here the array \<^verbatim>\<open>[]\<close>): \<^verbatim>\<open>.get\<close> raises
  \<^verbatim>\<open>AttributeError\<close>, which none of the three handlers catches.
\<close>

theorem submit_sbom_scan_raises_on_array_body:
  "submit_sbom_scan (Inr ()) (Inr \<lparr>status_code = 202, body = Some (JArr [])\<rparr>)
     = ([MsgSubmitting], Inl AttributeError)"
  by (simp add: submit_sbom_scan_def submit_try_def raise_for_status_def response_json_def)

section \<open>When the polling loop ends\<close>

text \<open>
  The loop is left by \<^verbatim>\<open>break\<close> after exactly \<open>n\<close> checks if and only if the \<open>n\<close>-th check
  is the first that does not return \<^verbatim>\<open>False\<close>, and it returns \<^verbatim>\<open>True\<close>; and the loop
  never ends if and only if every check returns \<^verbatim>\<open>False\<close>.
\<close>

lemma poll_break_iff:
  "(\<exists>tr'. poll u replies 0 tr = Some (tr', Suc k, None)) \<longleftrightarrow>
     (\<forall>j<k. snd (check_scan_status (replies j)) = Inr False) \<and>
     snd (check_scan_status (replies k)) = Inr True"
proof
  assume "\<exists>tr'. poll u replies 0 tr = Some (tr', Suc k, None)"
  then obtain tr' where "poll u replies 0 tr = Some (tr', Suc k, None)" ..
  from poll_Some_eq [OF this] obtain k' where
    "\<forall>j<k'. snd (check_scan_status (replies j)) = Inr False"
    "snd (check_scan_status (replies k')) \<noteq> Inr False"
    "k = k'" "exit_exc (snd (check_scan_status (replies k'))) = None"
    by auto
  then show "(\<forall>j<k. snd (check_scan_status (replies j)) = Inr False) \<and>
     snd (check_scan_status (replies k)) = Inr True"
    by (cases "snd (check_scan_status (replies k))") auto
next
  assume a: "(\<forall>j<k. snd (check_scan_status (replies j)) = Inr False) \<and>
     snd (check_scan_status (replies k)) = Inr True"
  then have "\<And>j. j < k \<Longrightarrow> snd (check_scan_status (replies (0 + j))) = Inr False"
    and "snd (check_scan_status (replies (0 + k))) \<noteq> Inr False"
    by simp_all
  from poll_exits [of k replies 0 u tr, OF this] a
  show "\<exists>tr'. poll u replies 0 tr = Some (tr', Suc k, None)"
    by simp
qed

lemma poll_never_ends_iff:
  "poll u replies 0 tr = None \<longleftrightarrow> (\<forall>k. snd (check_scan_status (replies k)) = Inr False)"
  using poll_None_iff [of u replies 0 tr] by simp

text \<open>
  C9: the loop can end although no check reports completion. The server answers a
  status request with 200 and a body that is JSON but not an object (here the array
  \<^verbatim>\<open>[]\<close>): \<^verbatim>\<open>check_scan_status\<close> raises \<^verbatim>\<open>AttributeError\<close>, which its handler does not
  catch, and the loop is left by the exception after one check.
\<close>

theorem poll_left_by_exception_on_array_body:
  "check_scan_status (Inr \<lparr>status_code = 200, body = Some (JArr [])\<rparr>)
     = ([], Inl AttributeError) \<and>
   poll (JStr ''api/v2/scan/status/7'')
        (\<lambda>i. Inr \<lparr>status_code = 200, body = Some (JArr [])\<rparr>) 0 []
     = Some ([EvSleep STATUS_CHECK_INTERVAL, EvCheck (JStr ''api/v2/scan/status/7'')],
             Suc 0, Some AttributeError)"
proof -
  have c: "check_scan_status (Inr \<lparr>status_code = 200, body = Some (JArr [])\<rparr>)
             = ([], Inl AttributeError)"
    by (simp add: check_scan_status_def check_try_def raise_for_status_def response_json_def)
  show ?thesis
    using c by (simp add: poll.simps poll_events_def)
qed

section \<open>How often a file is counted\<close>

lemma MAX_CONCURRENT_SCANS_pos: "0 < MAX_CONCURRENT_SCANS"
  by (simp add: MAX_CONCURRENT_SCANS_def)

text \<open>
  C1: a file whose name does not parse is counted twice. For the one file
  \<^verbatim>\<open>sboms/report.xml\<close> the worker increments the counter in the branch of the parse
  failure and again in its \<^verbatim>\<open>finally\<close> block, and the run of \<^verbatim>\<open>main\<close> ends with the
  counter at 2.
\<close>

theorem parse_failure_is_counted_twice:
  "scan_worker env ''sboms/report.xml''
     = Some ([EvPrint MsgInvalidFilename, EvIncrement, EvRelease, EvIncrement,
              EvPrint MsgWorkerFinished, EvPrint MsgProcessed], None) \<and>
   run envs [Orchestrator, Orchestrator, Worker 0, Worker 0, Worker 0, Worker 0, Worker 0,
             Worker 0] (init_sys [''sboms/report.xml''])
     = Some \<lparr>sem_value = MAX_CONCURRENT_SCANS, processed_counter = 2, pending = [],
             acquired = None, threads = [Todo []]\<rparr>"
proof -
  have p: "parse_filename ''sboms/report.xml'' = ([MsgInvalidFilename], None)"
    by code_simp
  have w: "scan_worker env ''sboms/report.xml''
     = Some ([EvPrint MsgInvalidFilename, EvIncrement, EvRelease, EvIncrement,
              EvPrint MsgWorkerFinished, EvPrint MsgProcessed], None)" for env
    by (simp add: scan_worker_def p finally_block_def)
  show ?thesis
    by (simp add: w init_sys_def main_step_def worker_step_def MAX_CONCURRENT_SCANS_pos)
qed

section \<open>The semaphore\<close>

lemma length_filter_update:
  "i < length xs \<Longrightarrow>
   length (filter P (xs[i := y])) + (if P (xs ! i) then 1 else 0)
     = length (filter P xs) + (if P y then 1 else 0)"
proof (induction xs arbitrary: i)
  case Nil
  then show ?case by simp
next
  case (Cons x xs)
  show ?case
  proof (cases i)
    case 0
    then show ?thesis by simp
  next
    case (Suc j)
    with Cons.prems have "j < length xs" by simp
    from Cons.IH [OF this] Suc show ?thesis by simp
  qed
qed

lemma list_all_update:
  "list_all P xs \<Longrightarrow> P y \<Longrightarrow> list_all P (xs[i := y])"
  using set_update_subset_insert [of xs i y] by (auto simp: list_all_iff)

lemma finally_block_releases_once:
  "length (filter (\<lambda>e. e = EvRelease) finally_block) = 1"
  by (simp add: finally_block_def)

lemma scan_worker_releases_once:
  assumes "scan_worker env filepath = Some (tr, exc)"
  shows "length (filter (\<lambda>e. e = EvRelease) tr) = 1"
proof -
  from scan_worker_shape [OF assms] obtain pre where
    tr: "tr = pre @ finally_block" and pre: "EvRelease \<notin> set pre"
    by blast
  from pre have "filter (\<lambda>e. e = EvRelease) pre = []"
    by (auto simp: filter_empty_conv)
  with tr show ?thesis by (simp add: finally_block_releases_once)
qed

lemma spawn_holds_slot:
  "holds_slot (spawn (scan_worker env filepath)) \<and>
   releases_left (spawn (scan_worker env filepath)) \<le> 1"
proof (cases "scan_worker env filepath")
  case None
  then show ?thesis by simp
next
  case (Some res)
  obtain tr exc where res: "res = (tr, exc)" by (cases res)
  from scan_worker_releases_once [of env filepath tr exc] Some res
  have one: "length (filter (\<lambda>e. e = EvRelease) tr) = 1" by simp
  then have "filter (\<lambda>e. e = EvRelease) tr \<noteq> []" by auto
  then have "EvRelease \<in> set tr" by (auto simp: filter_empty_conv)
  with one Some res show ?thesis by simp
qed

lemma init_sys_inv: "gate_inv (init_sys sbom_files)"
  by (simp add: gate_inv_def init_sys_def slots_held_def MAX_CONCURRENT_SCANS_pos less_imp_le)

lemma main_step_inv:
  assumes "gate_inv s" and "main_step envs s = Some s'"
  shows "gate_inv s'"
proof (cases "acquired s")
  case (Some f)
  with assms(2) have s': "s' = s\<lparr>acquired := None,
      threads := threads s @ [spawn (scan_worker (envs f) f)]\<rparr>"
    by (simp add: main_step_def)
  from assms(1) Some spawn_holds_slot [of "envs f" f] show ?thesis
    by (simp add: s' gate_inv_def slots_held_def)
next
  case None
  with assms(2) obtain f fs where p: "pending s = f # fs" and free: "0 < sem_value s"
    and s': "s' = s\<lparr>sem_value := sem_value s - 1, pending := fs, acquired := Some f\<rparr>"
    by (cases "pending s") (auto simp: main_step_def split: if_splits)
  from assms(1) None free show ?thesis
    by (simp add: s' gate_inv_def slots_held_def)
qed

lemma worker_step_inv:
  assumes "gate_inv s" and "worker_step i s = Some s'"
  shows "gate_inv s'"
proof -
  from assms(2) obtain e es where i: "i < length (threads s)"
    and t: "threads s ! i = Todo (e # es)"
    and s': "s' = exec_event e (s\<lparr>threads := (threads s)[i := Todo es]\<rparr>)"
    by (auto simp: worker_step_def split: if_splits thread.splits list.splits)
  from assms(1) i t have left: "releases_left (Todo (e # es)) \<le> 1"
    by (auto simp: gate_inv_def list_all_length)
  then have left': "releases_left (Todo es) \<le> 1"
    by (simp split: if_splits)
  from assms(1) left' have all: "list_all (\<lambda>t. releases_left t \<le> 1) ((threads s)[i := Todo es])"
    by (simp add: gate_inv_def list_all_update)
  from length_filter_update [OF i, of holds_slot "Todo es"] t
  have count: "length (filter holds_slot ((threads s)[i := Todo es]))
                 + (if holds_slot (Todo (e # es)) then 1 else 0)
               = length (filter holds_slot (threads s))
                 + (if holds_slot (Todo es) then 1 else 0)"
    by simp
  show ?thesis
  proof (cases "e = EvRelease")
    case True
    with left have "filter (\<lambda>e. e = EvRelease) es = []" by simp
    then have "EvRelease \<notin> set es" by (auto simp: filter_empty_conv)
    with True count have "length (filter holds_slot ((threads s)[i := Todo es])) + 1
               = length (filter holds_slot (threads s))"
      by simp
    with assms(1) all True show ?thesis
      by (auto simp: s' gate_inv_def slots_held_def)
  next
    case False
    with count have same: "length (filter holds_slot ((threads s)[i := Todo es]))
               = length (filter holds_slot (threads s))"
      by (auto split: if_splits)
    from False have "sem_value (exec_event e x) = sem_value x
        \<and> threads (exec_event e x) = threads x \<and> acquired (exec_event e x) = acquired x" for x
      by (cases e) simp_all
    with assms(1) all same show ?thesis
      by (simp add: s' gate_inv_def slots_held_def)
  qed
qed

lemma run_inv:
  "gate_inv s \<Longrightarrow> run envs schedule s = Some s' \<Longrightarrow> gate_inv s'"
proof (induction schedule arbitrary: s)
  case Nil
  then show ?case by simp
next
  case (Cons a schedule)
  from Cons.prems(2) obtain s1 where step: "sys_step envs a s = Some s1"
    and rest: "run envs schedule s1 = Some s'"
    by (auto split: option.splits)
  from step Cons.prems(1) have "gate_inv s1"
    by (cases a) (auto intro: main_step_inv worker_step_inv)
  from Cons.IH [OF this rest] show ?case .
qed

lemma all_joined_holds_none:
  assumes "all_joined s"
  shows "slots_held s = 0"
proof -
  from assms have "\<forall>t \<in> set (threads s). \<not> holds_slot t"
    by (auto simp: all_joined_def list_all_iff)
  then have "filter holds_slot (threads s) = []"
    by (auto simp: filter_empty_conv)
  with assms show ?thesis
    by (simp add: slots_held_def all_joined_def)
qed

text \<open>
  C2: in every state a run of \<^verbatim>\<open>main\<close> can reach, under every schedule of the
  orchestrator and the threads, the value of the semaphore lies between 0 and
  \<open>MAX_CONCURRENT_SCANS\<close>, it is \<open>MAX_CONCURRENT_SCANS\<close> less the number of slots held, and
  so at most \<open>MAX_CONCURRENT_SCANS\<close> slots are held.
\<close>

theorem gate_is_never_exceeded:
  assumes "run envs schedule (init_sys sbom_files) = Some s"
  shows "0 \<le> sem_value s \<and> sem_value s \<le> MAX_CONCURRENT_SCANS \<and>
         int (slots_held s) \<le> MAX_CONCURRENT_SCANS \<and>
         sem_value s = MAX_CONCURRENT_SCANS - int (slots_held s)"
proof -
  from run_inv [OF init_sys_inv assms] have "gate_inv s" .
  then show ?thesis by (auto simp: gate_inv_def)
qed

text \<open>
  C3: a worker that ends, with or without an exception, performs
  \<^verbatim>\<open>semaphore.release()\<close> exactly once, in its \<^verbatim>\<open>finally\<close> block, and its last increment
  of the counter comes right after the release; and when \<^verbatim>\<open>main\<close> has started a thread
  for every file and every thread has ended, the value of the semaphore is
  \<open>MAX_CONCURRENT_SCANS\<close> again.
\<close>

theorem slot_is_released_once:
  "(scan_worker env filepath = Some (tr, exc) \<longrightarrow>
      length (filter (\<lambda>e. e = EvRelease) tr) = 1 \<and>
      (\<exists>pre. tr = pre @ [EvRelease, EvIncrement, EvPrint MsgWorkerFinished,
                          EvPrint MsgProcessed] \<and> EvRelease \<notin> set pre)) \<and>
   (run envs schedule (init_sys sbom_files) = Some s \<and> all_joined s \<longrightarrow>
      sem_value s = MAX_CONCURRENT_SCANS)"
proof (intro conjI impI)
  assume w: "scan_worker env filepath = Some (tr, exc)"
  show "length (filter (\<lambda>e. e = EvRelease) tr) = 1"
    by (rule scan_worker_releases_once [OF w])
  from scan_worker_shape [OF w]
  show "\<exists>pre. tr = pre @ [EvRelease, EvIncrement, EvPrint MsgWorkerFinished,
                          EvPrint MsgProcessed] \<and> EvRelease \<notin> set pre"
    by (simp add: finally_block_def)
next
  assume r: "run envs schedule (init_sys sbom_files) = Some s \<and> all_joined s"
  then have "gate_inv s" using run_inv [OF init_sys_inv] by blast
  with r all_joined_holds_none [of s] show "sem_value s = MAX_CONCURRENT_SCANS"
    by (simp add: gate_inv_def)
qed

theorem gate_is_never_exceeded_witness:
  "run (\<lambda>f. \<lparr>read_file = Inr (), post_reply = Inl Timeout, get_reply = (\<lambda>i. Inl Timeout)\<rparr>)
       [Orchestrator, Orchestrator, Orchestrator, Worker 0, Worker 0, Worker 0, Worker 0,
        Worker 0]
       (init_sys [''sboms/shop_build_a1b2.xml'', ''sboms/report.xml''])
     = Some \<lparr>sem_value = 9, processed_counter = 1, pending = [],
             acquired = Some ''sboms/report.xml'',
             threads = [Todo [EvIncrement, EvPrint MsgWorkerFinished, EvPrint MsgProcessed]]\<rparr> \<and>
   (0::int) \<le> 9 \<and> 9 \<le> MAX_CONCURRENT_SCANS \<and>
   slots_held \<lparr>sem_value = 9, processed_counter = 1, pending = [],
               acquired = Some ''sboms/report.xml'',
               threads = [Todo [EvIncrement, EvPrint MsgWorkerFinished,
                                EvPrint MsgProcessed]]\<rparr> = 1 \<and>
   9 = MAX_CONCURRENT_SCANS - 1"
proof -
  let ?envs = "\<lambda>f::string. \<lparr>read_file = Inr (), post_reply = Inl Timeout,
                              get_reply = (\<lambda>i. Inl Timeout)\<rparr>"
  let ?s = "\<lparr>sem_value = 9, processed_counter = 1, pending = [],
             acquired = Some ''sboms/report.xml'',
             threads = [Todo [EvIncrement, EvPrint MsgWorkerFinished, EvPrint MsgProcessed]]\<rparr>"
  have w: "scan_worker (?envs f) ''sboms/shop_build_a1b2.xml''
     = Some ([EvSubmit, EvPrint MsgSubmitting, EvPrint MsgNetworkError, EvIncrement,
              EvRelease, EvIncrement, EvPrint MsgWorkerFinished, EvPrint MsgProcessed], None)"
    for f
  proof -
    have p: "parse_filename ''sboms/shop_build_a1b2.xml''
               = ([], Some (''shop'', ''build'', ''a1b2''))"
      by code_simp
    have sub: "submit_sbom_scan (Inr ()) (Inl Timeout)
                 = ([MsgSubmitting, MsgNetworkError], Inr JNull)"
      by (simp add: submit_sbom_scan_def submit_try_def)
    show ?thesis
      by (simp add: scan_worker_def p sub finally_block_def)
  qed
  have r: "run ?envs
       [Orchestrator, Orchestrator, Orchestrator, Worker 0, Worker 0, Worker 0, Worker 0,
        Worker 0]
       (init_sys [''sboms/shop_build_a1b2.xml'', ''sboms/report.xml'']) = Some ?s"
    by (simp add: w init_sys_def main_step_def worker_step_def MAX_CONCURRENT_SCANS_def)
  have held: "slots_held ?s = 1"
    by (simp add: slots_held_def)
  show ?thesis
    using gate_is_never_exceeded [OF r] r held
    by (simp add: MAX_CONCURRENT_SCANS_def)
qed

theorem slot_is_released_once_witness:
  "scan_worker \<lparr>read_file = Inr (),
                post_reply = Inr \<lparr>status_code = 202, body = Some (JArr [])\<rparr>,
                get_reply = (\<lambda>i. Inl Timeout)\<rparr> ''sboms/shop_build_a1b2.xml''
     = Some ([EvSubmit, EvPrint MsgSubmitting, EvRelease, EvIncrement,
              EvPrint MsgWorkerFinished, EvPrint MsgProcessed], Some AttributeError) \<and>
   length (filter (\<lambda>e. e = EvRelease)
             [EvSubmit, EvPrint MsgSubmitting, EvRelease, EvIncrement,
              EvPrint MsgWorkerFinished, EvPrint MsgProcessed]) = 1 \<and>
   run (\<lambda>f. \<lparr>read_file = Inr (),
              post_reply = Inr \<lparr>status_code = 202, body = Some (JArr [])\<rparr>,
              get_reply = (\<lambda>i. Inl Timeout)\<rparr>)
       [Orchestrator, Orchestrator, Worker 0, Worker 0, Worker 0, Worker 0, Worker 0, Worker 0]
       (init_sys [''sboms/shop_build_a1b2.xml''])
     = Some \<lparr>sem_value = MAX_CONCURRENT_SCANS, processed_counter = 1, pending = [],
             acquired = None, threads = [Todo []]\<rparr> \<and>
   all_joined \<lparr>sem_value = MAX_CONCURRENT_SCANS, processed_counter = 1, pending = [],
               acquired = None, threads = [Todo []]\<rparr> \<and>
   sem_value \<lparr>sem_value = MAX_CONCURRENT_SCANS, processed_counter = 1, pending = [],
              acquired = None, threads = [Todo []]\<rparr> = MAX_CONCURRENT_SCANS"
proof -
  let ?env = "\<lparr>read_file = Inr (),
               post_reply = Inr \<lparr>status_code = 202, body = Some (JArr [])\<rparr>,
               get_reply = (\<lambda>i. Inl Timeout)\<rparr>"
  let ?tr = "[EvSubmit, EvPrint MsgSubmitting, EvRelease, EvIncrement,
              EvPrint MsgWorkerFinished, EvPrint MsgProcessed]"
  let ?s = "\<lparr>sem_value = MAX_CONCURRENT_SCANS, processed_counter = 1, pending = [],
             acquired = None, threads = [Todo []]\<rparr>"
  have p: "parse_filename ''sboms/shop_build_a1b2.xml''
             = ([], Some (''shop'', ''build'', ''a1b2''))"
    by code_simp
  have sub: "submit_sbom_scan (Inr ()) (Inr \<lparr>status_code = 202, body = Some (JArr [])\<rparr>)
               = ([MsgSubmitting], Inl AttributeError)"
    by (simp add: submit_sbom_scan_def submit_try_def raise_for_status_def response_json_def)
  have w: "scan_worker ?env ''sboms/shop_build_a1b2.xml'' = Some (?tr, Some AttributeError)"
    by (simp add: scan_worker_def p sub finally_block_def)
  have r: "run (\<lambda>f. ?env)
       [Orchestrator, Orchestrator, Worker 0, Worker 0, Worker 0, Worker 0, Worker 0, Worker 0]
       (init_sys [''sboms/shop_build_a1b2.xml'']) = Some ?s"
    by (simp add: w init_sys_def main_step_def worker_step_def MAX_CONCURRENT_SCANS_pos)
  have j: "all_joined ?s"
    by (simp add: all_joined_def)
  show ?thesis
    using slot_is_released_once [of ?env "''sboms/shop_build_a1b2.xml''" ?tr
        "Some AttributeError" "\<lambda>f. ?env" _ "[''sboms/shop_build_a1b2.xml'']" ?s] w r j
    by simp
qed

section \<open>The counter under the lock\<close>

lemma init_counter_inv: "counter_inv (init_counter n)"
  by (auto simp: counter_inv_def lock_inv_def cell_inv_def snapshot_inv_def init_counter_def)

lemma task_step_cases:
  assumes "task_step i s = Some s'"
  obtains
    (acquire) "i < length (tasks s)" "tasks s ! i = Waiting" "\<not> lock_held s"
      "s' = s\<lparr>lock_held := True, tasks := (tasks s)[i := Locked]\<rparr>"
  | (load) "i < length (tasks s)" "tasks s ! i = Locked"
      "s' = s\<lparr>tasks := (tasks s)[i := Loaded (cell s)]\<rparr>"
  | (store) v where "i < length (tasks s)" "tasks s ! i = Loaded v"
      "s' = s\<lparr>cell := v + 1, tasks := (tasks s)[i := Stored]\<rparr>"
  | (snap) "i < length (tasks s)" "tasks s ! i = Stored"
      "s' = s\<lparr>tasks := (tasks s)[i := Snapped (cell s)]\<rparr>"
  | (release) v where "i < length (tasks s)" "tasks s ! i = Snapped v"
      "s' = s\<lparr>lock_held := False, tasks := (tasks s)[i := Finished v]\<rparr>"
  using assms by (auto simp: task_step_def split: if_splits task.splits)

lemma lock_inv_step:
  assumes "lock_inv s" and "task_step i s = Some s'"
  shows "lock_inv s'"
  using assms(2)
proof (cases rule: task_step_cases)
  case acquire
  with assms(1) show ?thesis
    by (auto simp: lock_inv_def nth_list_update)
next
  case load
  with assms(1) show ?thesis
    unfolding lock_inv_def
    by (auto simp: nth_list_update)
next
  case (store v)
  with assms(1) show ?thesis
    unfolding lock_inv_def
    by (auto simp: nth_list_update)
next
  case snap
  with assms(1) show ?thesis
    unfolding lock_inv_def
    by (auto simp: nth_list_update)
next
  case (release v)
  with assms(1) show ?thesis
    unfolding lock_inv_def
    by (auto simp: nth_list_update)
qed


lemma counted_update:
  assumes "i < length ts" and "counted (ts ! i) = counted t"
  shows "length (filter counted (ts[i := t])) = length (filter counted ts)"
  using length_filter_update [OF assms(1), of counted t] assms(2) by (simp split: if_splits)

lemma cell_inv_step:
  assumes "lock_inv s" and "cell_inv s" and "task_step i s = Some s'"
  shows "cell_inv s'"
  using assms(3)
proof (cases rule: task_step_cases)
  case acquire
  with assms(2) show ?thesis
    by (auto simp: cell_inv_def nth_list_update counted_update)
next
  case load
  with assms(2) show ?thesis
    by (auto simp: cell_inv_def nth_list_update counted_update)
next
  case (store v)
  from assms(2) store have v: "v = cell s"
    by (auto simp: cell_inv_def)
  from length_filter_update [OF store(1), of counted Stored] store(2)
  have count: "length (filter counted ((tasks s)[i := Stored]))
                 = Suc (length (filter counted (tasks s)))"
    by simp
  have "tasks s ! j \<noteq> Loaded w" if "j < length (tasks s)" "j \<noteq> i" for j w
  proof
    assume "tasks s ! j = Loaded w"
    with assms(1) store that show False
      by (auto simp: lock_inv_def)
  qed
  with assms(2) store v count show ?thesis
    by (auto simp: cell_inv_def nth_list_update)
next
  case snap
  with assms(2) show ?thesis
    by (auto simp: cell_inv_def nth_list_update counted_update)
next
  case (release v)
  with assms(2) show ?thesis
    by (auto simp: cell_inv_def nth_list_update counted_update)
qed

text \<open>The three parts of \<open>snapshot_inv\<close> as rules.\<close>

lemma snapshot_bound:
  "snapshot_inv s \<Longrightarrow> j < length (tasks s) \<Longrightarrow> snapshot (tasks s ! j) = Some w \<Longrightarrow>
   1 \<le> w \<and> w \<le> cell s"
  unfolding snapshot_inv_def by blast

lemma snapshot_distinct:
  "snapshot_inv s \<Longrightarrow> j < length (tasks s) \<Longrightarrow> k < length (tasks s) \<Longrightarrow> j \<noteq> k \<Longrightarrow>
   snapshot (tasks s ! j) = Some w \<Longrightarrow> snapshot (tasks s ! k) \<noteq> Some w"
  unfolding snapshot_inv_def by blast

lemma snapshot_below_stored:
  "snapshot_inv s \<Longrightarrow> j < length (tasks s) \<Longrightarrow> tasks s ! j = Stored \<Longrightarrow>
   k < length (tasks s) \<Longrightarrow> snapshot (tasks s ! k) = Some w \<Longrightarrow> w < cell s"
  unfolding snapshot_inv_def by blast

lemma snapshot_invI:
  assumes "\<And>j w. j < length (tasks s) \<Longrightarrow> snapshot (tasks s ! j) = Some w \<Longrightarrow>
             1 \<le> w \<and> w \<le> cell s"
    and "\<And>j k w. j < length (tasks s) \<Longrightarrow> k < length (tasks s) \<Longrightarrow> j \<noteq> k \<Longrightarrow>
             snapshot (tasks s ! j) = Some w \<Longrightarrow> snapshot (tasks s ! k) \<noteq> Some w"
    and "\<And>j k w. j < length (tasks s) \<Longrightarrow> tasks s ! j = Stored \<Longrightarrow>
             k < length (tasks s) \<Longrightarrow> snapshot (tasks s ! k) = Some w \<Longrightarrow> w < cell s"
  shows "snapshot_inv s"
  unfolding snapshot_inv_def using assms by blast

lemma only_one_in_cs:
  "lock_inv s \<Longrightarrow> i < length (tasks s) \<Longrightarrow> in_cs (tasks s ! i) \<Longrightarrow>
   j < length (tasks s) \<Longrightarrow> in_cs (tasks s ! j) \<Longrightarrow> j = i"
  unfolding lock_inv_def by blast

text \<open>
  A step that leaves the snapshots as they are, the cell as it is, and makes no task
  \<open>Stored\<close>, keeps the invariant.
\<close>

lemma snapshot_inv_quiet_step:
  assumes inv: "snapshot_inv s"
    and len: "length (tasks s') = length (tasks s)"
    and same: "\<And>j. j < length (tasks s) \<Longrightarrow> snapshot (tasks s' ! j) = snapshot (tasks s ! j)"
    and cell: "cell s' = cell s"
    and stored: "\<And>j. j < length (tasks s) \<Longrightarrow> tasks s' ! j = Stored \<Longrightarrow> tasks s ! j = Stored"
  shows "snapshot_inv s'"
proof (rule snapshot_invI)
  fix j w
  assume "j < length (tasks s')" "snapshot (tasks s' ! j) = Some w"
  then show "1 \<le> w \<and> w \<le> cell s'"
    using snapshot_bound [OF inv, of j w] len same [of j] cell by simp
next
  fix j k w
  assume "j < length (tasks s')" "k < length (tasks s')"
    "j \<noteq> k" "snapshot (tasks s' ! j) = Some w"
  then show "snapshot (tasks s' ! k) \<noteq> Some w"
    using snapshot_distinct [OF inv, of j k w] len same [of j] same [of k] by simp
next
  fix j k w
  assume "j < length (tasks s')" "tasks s' ! j = Stored"
    "k < length (tasks s')" "snapshot (tasks s' ! k) = Some w"
  then show "w < cell s'"
    using snapshot_below_stored [OF inv, of j k w] len same [of k] cell stored [of j] by simp
qed

lemma snapshot_inv_acquire:
  assumes "snapshot_inv s" and "i < length (tasks s)" and "tasks s ! i = Waiting"
  shows "snapshot_inv (s\<lparr>lock_held := True, tasks := (tasks s)[i := Locked]\<rparr>)"
  using assms by (intro snapshot_inv_quiet_step [of s, OF assms(1)]) (auto simp: nth_list_update split: if_splits)

lemma snapshot_inv_load:
  assumes "snapshot_inv s" and "i < length (tasks s)" and "tasks s ! i = Locked"
  shows "snapshot_inv (s\<lparr>tasks := (tasks s)[i := Loaded (cell s)]\<rparr>)"
  using assms by (intro snapshot_inv_quiet_step [of s, OF assms(1)]) (auto simp: nth_list_update split: if_splits)

lemma snapshot_inv_release:
  assumes "snapshot_inv s" and "i < length (tasks s)" and "tasks s ! i = Snapped v"
  shows "snapshot_inv (s\<lparr>lock_held := False, tasks := (tasks s)[i := Finished v]\<rparr>)"
  using assms by (intro snapshot_inv_quiet_step [of s, OF assms(1)]) (auto simp: nth_list_update split: if_splits)

lemma snapshot_inv_store:
  assumes inv: "snapshot_inv s" and i: "i < length (tasks s)" and t: "tasks s ! i = Loaded v"
    and v: "v = cell s"
  shows "snapshot_inv (s\<lparr>cell := v + 1, tasks := (tasks s)[i := Stored]\<rparr>)"
proof (rule snapshot_invI)
  let ?s' = "s\<lparr>cell := v + 1, tasks := (tasks s)[i := Stored]\<rparr>"
  fix j w
  assume j: "j < length (tasks ?s')" and w: "snapshot (tasks ?s' ! j) = Some w"
  from j w i have "j \<noteq> i" by (auto simp: nth_list_update split: if_splits)
  with j w have "snapshot (tasks s ! j) = Some w" "j < length (tasks s)" by simp_all
  from snapshot_bound [OF inv this(2) this(1)] v show "1 \<le> w \<and> w \<le> cell ?s'" by simp
next
  let ?s' = "s\<lparr>cell := v + 1, tasks := (tasks s)[i := Stored]\<rparr>"
  fix j k w
  assume j: "j < length (tasks ?s')" and k: "k < length (tasks ?s')"
    and jk: "j \<noteq> k" and w: "snapshot (tasks ?s' ! j) = Some w"
  from j w i have ji: "j \<noteq> i" by (auto simp: nth_list_update split: if_splits)
  show "snapshot (tasks ?s' ! k) \<noteq> Some w"
  proof (cases "k = i")
    case True
    with i show ?thesis by simp
  next
    case False
    with ji jk j k w snapshot_distinct [OF inv, of j k w] show ?thesis by simp
  qed
next
  let ?s' = "s\<lparr>cell := v + 1, tasks := (tasks s)[i := Stored]\<rparr>"
  fix j k w
  assume k: "k < length (tasks ?s')" and w: "snapshot (tasks ?s' ! k) = Some w"
  from k w i have "k \<noteq> i" by (auto simp: nth_list_update split: if_splits)
  with k w have "snapshot (tasks s ! k) = Some w" "k < length (tasks s)" by simp_all
  from snapshot_bound [OF inv this(2) this(1)] v show "w < cell ?s'" by simp
qed

lemma snapshot_inv_snap:
  assumes lock: "lock_inv s" and inv: "snapshot_inv s" and i: "i < length (tasks s)"
    and t: "tasks s ! i = Stored" and pos: "1 \<le> cell s"
  shows "snapshot_inv (s\<lparr>tasks := (tasks s)[i := Snapped (cell s)]\<rparr>)"
proof (rule snapshot_invI)
  let ?s' = "s\<lparr>tasks := (tasks s)[i := Snapped (cell s)]\<rparr>"
  fix j w
  assume j: "j < length (tasks ?s')" and w: "snapshot (tasks ?s' ! j) = Some w"
  show "1 \<le> w \<and> w \<le> cell ?s'"
  proof (cases "j = i")
    case True
    with i w pos show ?thesis by simp
  next
    case False
    with j w snapshot_bound [OF inv, of j w] show ?thesis by simp
  qed
next
  let ?s' = "s\<lparr>tasks := (tasks s)[i := Snapped (cell s)]\<rparr>"
  fix j k w
  assume j: "j < length (tasks ?s')" and k: "k < length (tasks ?s')"
    and jk: "j \<noteq> k" and w: "snapshot (tasks ?s' ! j) = Some w"
  have fresh: "snapshot (tasks s ! m) \<noteq> Some (cell s)" if "m < length (tasks s)" for m
    using snapshot_below_stored [OF inv i t that, of "cell s"] by auto
  show "snapshot (tasks ?s' ! k) \<noteq> Some w"
  proof (cases "j = i")
    case True
    with i w jk have "w = cell s" "k \<noteq> i" by auto
    with k fresh [of k] show ?thesis by simp
  next
    case ji: False
    show ?thesis
    proof (cases "k = i")
      case True
      with ji j w i fresh [of j] show ?thesis by auto
    next
      case False
      with ji jk j k w snapshot_distinct [OF inv, of j k w] show ?thesis by simp
    qed
  qed
next
  let ?s' = "s\<lparr>tasks := (tasks s)[i := Snapped (cell s)]\<rparr>"
  fix j k w
  assume j: "j < length (tasks ?s')" and st: "tasks ?s' ! j = Stored"
  from j st i have ji: "j \<noteq> i" by (auto simp: nth_list_update split: if_splits)
  with j st have "tasks s ! j = Stored" "j < length (tasks s)" by simp_all
  with only_one_in_cs [OF lock i _ this(2)] t have "j = i" by simp
  with ji show "w < cell ?s'" by simp
qed

lemma snapshot_inv_step:
  assumes "lock_inv s" and "cell_inv s" and "snapshot_inv s" and "task_step i s = Some s'"
  shows "snapshot_inv s'"
  using assms(4)
proof (cases rule: task_step_cases)
  case acquire
  with assms(3) show ?thesis by (simp add: snapshot_inv_acquire)
next
  case load
  with assms(3) show ?thesis by (simp add: snapshot_inv_load)
next
  case (store v)
  from assms(2) store have "v = cell s" by (auto simp: cell_inv_def)
  with assms(3) store show ?thesis by (simp add: snapshot_inv_store)
next
  case snap
  then have "counted (tasks s ! i)" by simp
  moreover from snap(1) have "tasks s ! i \<in> set (tasks s)" by (rule nth_mem)
  ultimately have "filter counted (tasks s) \<noteq> []"
    by (auto simp: filter_empty_conv)
  with assms(2) have "1 \<le> cell s"
    by (cases "filter counted (tasks s)") (auto simp: cell_inv_def)
  with assms(1,3) snap show ?thesis by (simp add: snapshot_inv_snap)
next
  case (release v)
  with assms(3) show ?thesis by (simp add: snapshot_inv_release)
qed

lemma task_step_inv:
  assumes "counter_inv s" and "task_step i s = Some s'"
  shows "counter_inv s'"
proof -
  from assms(1) have l: "lock_inv s" and c: "cell_inv s" and sn: "snapshot_inv s"
    by (simp_all add: counter_inv_def)
  show ?thesis
    unfolding counter_inv_def
    using lock_inv_step [OF l assms(2)] cell_inv_step [OF l c assms(2)]
      snapshot_inv_step [OF l c sn assms(2)]
    by simp
qed

lemma task_step_length:
  "task_step i s = Some s' \<Longrightarrow> length (tasks s') = length (tasks s)"
  by (erule task_step_cases) auto

lemma run_tasks_inv:
  "counter_inv s \<Longrightarrow> run_tasks schedule s = Some s' \<Longrightarrow>
   counter_inv s' \<and> length (tasks s') = length (tasks s)"
proof (induction schedule arbitrary: s)
  case Nil
  then show ?case by simp
next
  case (Cons i schedule)
  from Cons.prems(2) obtain s1 where step: "task_step i s = Some s1"
    and rest: "run_tasks schedule s1 = Some s'"
    by (auto split: option.splits)
  from task_step_inv [OF Cons.prems(1) step] have "counter_inv s1" .
  from Cons.IH [OF this rest] task_step_length [OF step] show ?case by simp
qed


text \<open>While a task has not finished, some task can make a step: the lock is never left held.\<close>

lemma no_deadlock:
  assumes "counter_inv s" and "\<not> list_all is_finished (tasks s)"
  shows "\<exists>i. task_step i s \<noteq> None"
proof (cases "lock_held s")
  case True
  with assms(1) obtain i where "i < length (tasks s)" "in_cs (tasks s ! i)"
    by (auto simp: counter_inv_def lock_inv_def)
  then have "task_step i s \<noteq> None"
    by (cases "tasks s ! i") (simp_all add: task_step_def)
  then show ?thesis ..
next
  case False
  from assms(2) obtain i where i: "i < length (tasks s)" and "\<not> is_finished (tasks s ! i)"
    by (auto simp: list_all_length)
  with False have "task_step i s \<noteq> None"
    by (cases "tasks s ! i") (simp_all add: task_step_def)
  then show ?thesis ..
qed

text \<open>
  C8: \<open>n\<close> tasks each run the block under the lock once, interleaved in any way the lock
  allows. When all of them have finished, the counter is exactly \<open>n\<close> (no update is
  lost), no two tasks have read the same \<^verbatim>\<open>current_count\<close>, and the values read are
  exactly 1 to \<open>n\<close>.
\<close>

theorem locked_increments_are_not_lost:
  assumes "run_tasks schedule (init_counter n) = Some s"
    and "list_all is_finished (tasks s)"
  shows "cell s = int n \<and> distinct (map snapshot (tasks s)) \<and>
         set (map snapshot (tasks s)) = Some ` {1 .. int n}"
proof -
  from run_tasks_inv [OF init_counter_inv assms(1)]
  have inv: "counter_inv s" and len: "length (tasks s) = n"
    by (simp_all add: init_counter_def)
  then have c: "cell_inv s" and sn: "snapshot_inv s"
    by (simp_all add: counter_inv_def)
  have fin: "is_finished (tasks s ! i)" if "i < n" for i
    using assms(2) len that by (simp add: list_all_length)
  have "\<forall>t \<in> set (tasks s). counted t"
  proof
    fix t assume "t \<in> set (tasks s)"
    with assms(2) have "is_finished t" by (simp add: list_all_iff)
    then show "counted t" by (cases t) simp_all
  qed
  then have "filter counted (tasks s) = tasks s" by simp
  with c len have cell: "cell s = int n" by (simp add: cell_inv_def)
  have some: "\<exists>v. snapshot (tasks s ! i) = Some v" if "i < n" for i
    using fin [OF that] by (cases "tasks s ! i") simp_all
  have dist: "distinct (map snapshot (tasks s))"
    unfolding distinct_conv_nth
  proof (intro allI impI)
    fix i j
    assume i: "i < length (map snapshot (tasks s))"
      and j: "j < length (map snapshot (tasks s))" and ij: "i \<noteq> j"
    from i len some [of i] obtain v where v: "snapshot (tasks s ! i) = Some v" by auto
    from snapshot_distinct [OF sn _ _ ij v] i j
    show "map snapshot (tasks s) ! i \<noteq> map snapshot (tasks s) ! j"
      using v by simp
  qed
  have sub: "set (map snapshot (tasks s)) \<subseteq> Some ` {1 .. int n}"
  proof
    fix x assume "x \<in> set (map snapshot (tasks s))"
    then obtain i where i: "i < length (tasks s)" and x: "x = snapshot (tasks s ! i)"
      by (auto simp: in_set_conv_nth)
    from some [of i] i len obtain v where v: "snapshot (tasks s ! i) = Some v" by auto
    from snapshot_bound [OF sn i v] cell x v show "x \<in> Some ` {1 .. int n}" by simp
  qed
  have "card (set (map snapshot (tasks s))) = n"
    using distinct_card [OF dist] len by simp
  moreover have "card (Some ` {1 .. int n}) = n"
    by (simp add: card_image)
  ultimately have "set (map snapshot (tasks s)) = Some ` {1 .. int n}"
    using sub by (intro card_subset_eq) simp_all
  with cell dist show ?thesis by simp
qed

theorem locked_increments_are_not_lost_witness:
  "run_tasks [1, 1, 0, 1, 1, 1, 0, 0, 0, 0] (init_counter 2) = None \<and>
   run_tasks [1, 1, 1, 1, 1, 0, 0, 0, 0, 0] (init_counter 2)
     = Some \<lparr>cell = 2, lock_held = False, tasks = [Finished 2, Finished 1]\<rparr> \<and>
   list_all is_finished [Finished 2, Finished 1] \<and>
   cell \<lparr>cell = 2, lock_held = False, tasks = [Finished 2, Finished 1]\<rparr> = 2 \<and>
   distinct (map snapshot [Finished 2, Finished 1])"
proof -
  let ?s = "\<lparr>cell = 2, lock_held = False, tasks = [Finished 2, Finished 1]\<rparr>"
  have blocked: "run_tasks [1, 1, 0, 1, 1, 1, 0, 0, 0, 0] (init_counter 2) = None"
    by code_simp
  have r: "run_tasks [1, 1, 1, 1, 1, 0, 0, 0, 0, 0] (init_counter 2) = Some ?s"
    by code_simp
  have f: "list_all is_finished (tasks ?s)"
    by simp
  show ?thesis
    using locked_increments_are_not_lost [OF r f] blocked r
    by simp
qed

section \<open>Increments of one worker\<close>

text \<open>
  How often a worker that ends has incremented the counter: twice when the file name
  does not parse or the submission returns a false value, once otherwise.
\<close>

lemma scan_worker_increments:
  assumes "scan_worker env filepath = Some (tr, exc)"
  shows "length (filter (\<lambda>e. e = EvIncrement) tr) =
           (if \<not> all_parts (snd (parse_filename filepath)) then 2
            else case snd (submit_sbom_scan (read_file env) (post_reply env)) of
                   Inl e \<Rightarrow> 1
                 | Inr status_url \<Rightarrow> if truthy status_url then 1 else 2)"
proof (cases "all_parts (snd (parse_filename filepath))")
  case False
  with assms show ?thesis
    by (cases "parse_filename filepath")
       (auto simp: scan_worker_def finally_block_def filter_empty_conv)
next
  case parsed: True
  obtain sms res where sub: "submit_sbom_scan (read_file env) (post_reply env) = (sms, res)"
    by (cases "submit_sbom_scan (read_file env) (post_reply env)")
  have quiet: "filter (\<lambda>e. e = EvIncrement) (map EvPrint ms) = []" for ms
    by (auto simp: filter_empty_conv)
  show ?thesis
  proof (cases res)
    case (Inl e)
    with assms parsed sub show ?thesis
      by (cases "parse_filename filepath")
         (auto simp: scan_worker_def finally_block_def quiet)
  next
    case (Inr status_url)
    show ?thesis
    proof (cases "truthy status_url")
      case False
      with assms parsed sub Inr show ?thesis
        using scan_worker_not_polling [OF parsed _ False, of env sms]
        by (auto simp: finally_block_def quiet)
    next
      case True
      with assms sub Inr scan_worker_polling [OF parsed _ True, of env sms] obtain tr' n where
        p: "poll status_url (get_reply env) 0
              (map EvPrint (fst (parse_filename filepath)) @ [EvSubmit] @ map EvPrint sms)
            = Some (tr', n, exc)" and tr: "tr = tr' @ finally_block"
        by (auto split: option.splits)
      from poll_appends [OF p] obtain evs where
        tr': "tr' = (map EvPrint (fst (parse_filename filepath)) @ [EvSubmit]
                      @ map EvPrint sms) @ evs"
        and evs: "EvIncrement \<notin> set evs"
        by blast
      from evs have "filter (\<lambda>e. e = EvIncrement) evs = []"
        by (auto simp: filter_empty_conv)
      with tr tr' parsed sub Inr True show ?thesis
        by (simp add: finally_block_def quiet)
    qed
  qed
qed

end
